theory Spec2Isabelle
  imports Complex_Main
begin

unbundle bit_operations_syntax

section \<open>Fixed-point power formula (Formula/Power)\<close>

text \<open>
  The module computes \<open>(baseN / baseD) ^ (expN / expD)\<close> on integers, scaled by
  \<open>2 ^ precision\<close>. It is Python 2 code: \<open>/\<close> between integers is floor division (the
  results are shifted and compared as integers), integers are unbounded, \<open><<\<close> and \<open>>>\<close>
  multiply and floor-divide by a power of two. So values are \<open>int\<close>, \<open>x << n\<close> is
  \<open>push_bit n x\<close>, \<open>x >> n\<close> is \<open>drop_bit n x\<close> and \<open>x / y\<close> is \<open>x div y\<close>, each
  with what Python raises written out: a negative shift count raises ValueError and a
  zero divisor raises ZeroDivisionError.

  The source signals every violated precondition with \<open>assert\<close>. The specification
  names the failures by the function that raises them: the assertions of \<open>ln\<close>,
  \<open>lnUpperBound32\<close>, \<open>fixedLoge\<close> and \<open>fixedLog2\<close> are a DomainError, those of
  \<open>fixedExp\<close> and \<open>safeMul\<close> an OverflowError.
\<close>

datatype error = DomainError | OverflowError | ZeroDivisionError | ValueError

definition ONE :: int where
  "ONE = 1"

definition TWO :: int where
  "TWO = 2"

definition MAX_FIXED_EXP_32 :: int where
  "MAX_FIXED_EXP_32 = 0x386bfdba29"

text \<open>Python's \<open>range(start, stop, step)\<close> for the positive steps the module uses.\<close>

function range3 :: "int \<Rightarrow> int \<Rightarrow> int \<Rightarrow> int list" where
  "range3 start stop step =
     (if 0 < step \<and> start < stop then start # range3 (start + step) stop step else [])"
  by pat_completeness auto
termination
  by (relation "measure (\<lambda>(start, stop, step). nat (stop - start))") auto

subsection \<open>safeMul\<close>

definition safeMul :: "int \<Rightarrow> int \<Rightarrow> error + int" where
  "safeMul x y = (if x * y < push_bit 256 1 then Inr (x * y) else Inl OverflowError)"

subsection \<open>floorLog2\<close>

text \<open>
  One round of the loop of \<open>floorLog2\<close> for the shift \<open>s\<close>, on the pair \<open>(_n, t)\<close>.
  The shifts are the list \<open>[1 << (8 - 1 - k) for k in range(8)]\<close>.
\<close>

fun floorLog2_step :: "nat \<Rightarrow> int \<times> int \<Rightarrow> int \<times> int" where
  "floorLog2_step s (n, t) =
     (if n \<ge> push_bit s ONE then (drop_bit s n, t OR int s) else (n, t))"

definition floorLog2_shifts :: "nat list" where
  "floorLog2_shifts = map (\<lambda>k. push_bit (8 - 1 - k) 1) [0..<8]"

definition floorLog2 :: "int \<Rightarrow> int" where
  "floorLog2 n = snd (fold floorLog2_step floorLog2_shifts (n, 0))"

subsection \<open>fixedLog2, fixedLoge, ln\<close>

text \<open>
  The \<open>while\<close> loop of \<open>fixedLog2\<close> on the pair \<open>(_x, hi)\<close>, at a precision that is
  known to be non-negative when the loop is reached.
\<close>

function fixedLog2_while :: "nat \<Rightarrow> int \<Rightarrow> int \<Rightarrow> int \<times> int" where
  "fixedLog2_while p x hi =
     (if x \<ge> push_bit p TWO then fixedLog2_while p (drop_bit 1 x) (hi + push_bit p ONE)
      else (x, hi))"
  by pat_completeness auto
termination
proof (relation "measure (\<lambda>(p, x, hi). nat x)")
  show "wf (measure (\<lambda>(p, x, hi). nat x))"
    by simp
next
  fix p :: nat and x hi :: int
  assume "push_bit p TWO \<le> x"
  then have "2 * 2 ^ p \<le> x"
    by (simp add: push_bit_eq_mult TWO_def)
  moreover have "(1::int) \<le> 2 ^ p"
    by simp
  ultimately have "2 \<le> x"
    by linarith
  then show "((p, drop_bit 1 x, hi + push_bit p ONE), (p, x, hi)) \<in> measure (\<lambda>(p, x, hi). nat x)"
    by (simp add: drop_bit_eq_div)
qed

text \<open>One round of the \<open>for i in range(_precision)\<close> loop of \<open>fixedLog2\<close>.\<close>

fun fixedLog2_step :: "nat \<Rightarrow> nat \<Rightarrow> int \<times> int \<Rightarrow> int \<times> int" where
  "fixedLog2_step p i (x, hi) =
     (let x' = (x * x) div push_bit p ONE
      in if x' \<ge> push_bit p TWO then (drop_bit 1 x', hi + push_bit (p - 1 - i) ONE)
         else (x', hi))"

definition fixedLog2 :: "int \<Rightarrow> int \<Rightarrow> error + int" where
  "fixedLog2 x precision =
     (if precision < 0 then Inl ValueError
      else let p = nat precision; fixedOne = push_bit p ONE
        in if \<not> x \<ge> fixedOne then Inl DomainError
           else Inr (snd (fold (fixedLog2_step p) [0..<p] (fixedLog2_while p x 0))))"

definition fixedLoge :: "int \<Rightarrow> int \<Rightarrow> error + int" where
  "fixedLoge x precision =
     (if precision < 0 then Inl ValueError
      else if \<not> x \<ge> push_bit (nat precision) ONE then Inl DomainError
      else case fixedLog2 x precision of
             Inl e \<Rightarrow> Inl e
           | Inr log2 \<Rightarrow> Inr (drop_bit 56 (log2 * 0xb17217f7d1cf78)))"

definition ln_fixed :: "int \<Rightarrow> int \<Rightarrow> int \<Rightarrow> error + int" where
  "ln_fixed numerator denominator precision =
     (if \<not> denominator \<le> numerator then Inl DomainError
      else if \<not> (denominator \<noteq> 0 \<and> numerator \<noteq> 0) then Inl DomainError
      else if 256 - precision < 0 then Inl ValueError
      else let MAX_VAL = push_bit (nat (256 - precision)) ONE
        in if \<not> numerator < MAX_VAL then Inl DomainError
           else if \<not> denominator < MAX_VAL then Inl DomainError
           else if precision < 0 then Inl ValueError
           else fixedLoge (push_bit (nat precision) numerator div denominator) precision)"

subsection \<open>lnUpperBound32 and calculateBestPrecision\<close>

definition lnUpperBound32 :: "int \<Rightarrow> int \<Rightarrow> error + int" where
  "lnUpperBound32 baseN baseD =
     (if \<not> baseN > baseD then Inl DomainError
      else let scaledBaseN = baseN * 100000
        in if scaledBaseN \<le> baseD * 271828 then Inr (push_bit 32 1)
           else if scaledBaseN \<le> baseD * 738905 then Inr (push_bit 32 2)
           else if scaledBaseN \<le> baseD * 2008553 then Inr (push_bit 32 3)
           else if baseD = 0 then Inl ZeroDivisionError
           else Inr ((floorLog2 ((baseN - 1) div baseD) + 1) * 0xb17217f8))"

text \<open>
  The \<open>for \<dots> else\<close> loop of \<open>calculateBestPrecision\<close>: \<open>Some precision\<close> when the loop
  leaves by \<open>break\<close>, \<open>None\<close> when the range is exhausted and the \<open>else\<close> branch runs.
\<close>

fun calculateBestPrecision_loop :: "int \<Rightarrow> int \<Rightarrow> int \<Rightarrow> int list \<Rightarrow> int option" where
  "calculateBestPrecision_loop maxExp maxVal expD [] = None"
| "calculateBestPrecision_loop maxExp maxVal expD (precision # rest) =
     (if maxExp < push_bit (nat precision) maxVal div expD then Some precision
      else calculateBestPrecision_loop
             (drop_bit (64 - 2) (maxExp * 0xeb5ec5975959c565)) maxVal expD rest)"

definition calculateBestPrecision :: "int \<Rightarrow> int \<Rightarrow> int \<Rightarrow> int \<Rightarrow> error + int" where
  "calculateBestPrecision baseN baseD expN expD =
     (case lnUpperBound32 baseN baseD of
        Inl e \<Rightarrow> Inl e
      | Inr bound \<Rightarrow>
          if expD = 0 then Inl ZeroDivisionError
          else (case calculateBestPrecision_loop MAX_FIXED_EXP_32 (bound * expN) expD
                       (range3 0 32 2) of
                  None \<Rightarrow> Inr (64 - 2)
                | Some precision \<Rightarrow>
                    if precision = 0 then Inr 32 else Inr (precision + 32 - 2)))"

subsection \<open>fixedExpUnsafe, fixedExp, power\<close>

text \<open>
  The coefficients of the terms of \<open>fixedExpUnsafe\<close> after the first, in the order of
  the source. Each of them is used by one pair of statements
  \<open>xi = (xi * _x) >> _precision; res += xi * c\<close>.
\<close>

definition fixedExp_coefficients :: "int list" where
  "fixedExp_coefficients =
     [0x6f0de268cf7e5641222ed3ad80000000, 0x2504a0cd9a7f7215b60f9be480000000,
      0x9412833669fdc856d83e6f920000000, 0x1d9d4d714865f4de2b3fafea0000000,
      0x4ef8ce836bba8cfb1dff2a70000000, 0xb481d807d1aa66d04490610000000,
      0x16903b00fa354cda08920c2000000, 0x281cdaac677b334ab9e732000000,
      0x402e2aad725eb8778fd85000000, 0x5d5a6c9f31fe2396a2af000000,
      0x7c7890d442a82f73839400000, 0x9931ed54034526b58e400000,
      0xaf147cf24ce150cf7e00000, 0xbac08546b867cdaa200000,
      0xbac08546b867cdaa20000, 0xafc441338061b2820000,
      0x9c3cabbc0056d790000, 0x839168328705c30000,
      0x694120286c049c000, 0x50319e98b3d2c000,
      0x3a52a1e36b82000, 0x289286e0fce000,
      0x1b0c59eb53400, 0x114f95b55400,
      0xaa7210d200, 0x650139600,
      0x39b78e80, 0x1fd8080,
      0x10fbc0, 0x8c40,
      0x462, 0x22]"

fun fixedExpUnsafe_term :: "int \<Rightarrow> nat \<Rightarrow> int \<Rightarrow> int \<times> int \<Rightarrow> int \<times> int" where
  "fixedExpUnsafe_term x p c (xi, res) =
     (let xi' = drop_bit p (xi * x) in (xi', res + xi' * c))"

definition fixedExpUnsafe :: "int \<Rightarrow> int \<Rightarrow> error + int" where
  "fixedExpUnsafe x precision =
     (if precision < 0 then Inl ValueError
      else let p = nat precision;
               xi = x;
               res = push_bit p 0xde1bc4d19efcac82445da75b00000000;
               res = res + xi * 0xde1bc4d19efcac82445da75b00000000
        in Inr (snd (fold (fixedExpUnsafe_term x p) fixedExp_coefficients (xi, res))
                  div 0xde1bc4d19efcac82445da75b00000000))"

definition fixedExp :: "int \<Rightarrow> int \<Rightarrow> error + int" where
  "fixedExp x precision =
     (let maxExp = fold (\<lambda>p maxExp. drop_bit (64 - 2) (maxExp * 0xeb5ec5975959c565))
                     (range3 32 precision 2) MAX_FIXED_EXP_32
      in if \<not> x \<le> maxExp then Inl OverflowError else fixedExpUnsafe x precision)"

definition power :: "int \<Rightarrow> int \<Rightarrow> int \<Rightarrow> int \<Rightarrow> int \<Rightarrow> error + int" where
  "power baseN baseD expN expD precision =
     (case ln_fixed baseN baseD precision of
        Inl e \<Rightarrow> Inl e
      | Inr logbase \<Rightarrow>
          (case safeMul logbase expN of
             Inl e \<Rightarrow> Inl e
           | Inr product \<Rightarrow>
               if expD = 0 then Inl ZeroDivisionError
               else fixedExp (product div expD) precision))"

subsection \<open>The values computed by fixedExpUnsafe\<close>

text \<open>
  The module is written so that no computation exceeds 256 bits: \<open>safeMul\<close> asserts
  \<open>x * y < (1 << 256)\<close>, \<open>fixedExp\<close> is described as the version of
  \<open>fixedExpUnsafe\<close> that "asserts instead of overflows", and the input range documented
  for \<open>fixedExpUnsafe\<close> ("ok at <= 242329958953, fails at >= 242329958954") is the range
  on which none of its computations overflows. A value fits when it is an unsigned
  integer below \<open>1 << 256\<close>.
\<close>

definition fits_uint256 :: "int \<Rightarrow> bool" where
  "fits_uint256 v \<longleftrightarrow> 0 \<le> v \<and> v < push_bit 256 1"

text \<open>
  The values that one pair of statements \<open>xi = (xi * _x) >> _precision; res += xi * c\<close>
  computes, in order: the product \<open>xi * _x\<close>, the new \<open>xi\<close>, the product \<open>xi * c\<close> and
  the new \<open>res\<close>. Then the values of all the pairs of statements, and the values of the
  whole function: those of the first two assignments to \<open>res\<close>, those of the terms and,
  last, the returned quotient.
\<close>

fun fixedExpUnsafe_term_values :: "int \<Rightarrow> nat \<Rightarrow> int \<Rightarrow> int \<times> int \<Rightarrow> int list" where
  "fixedExpUnsafe_term_values x p c (xi, res) =
     (let product = xi * x; xi' = drop_bit p product
      in [product, xi', xi' * c, res + xi' * c])"

fun fixedExpUnsafe_terms_values :: "int \<Rightarrow> nat \<Rightarrow> int list \<Rightarrow> int \<times> int \<Rightarrow> int list" where
  "fixedExpUnsafe_terms_values x p [] s = []"
| "fixedExpUnsafe_terms_values x p (c # cs) s =
     fixedExpUnsafe_term_values x p c s
       @ fixedExpUnsafe_terms_values x p cs (fixedExpUnsafe_term x p c s)"

definition fixedExpUnsafe_values :: "int \<Rightarrow> nat \<Rightarrow> int list" where
  "fixedExpUnsafe_values x p =
     (let xi = x;
          res0 = push_bit p 0xde1bc4d19efcac82445da75b00000000;
          product = xi * 0xde1bc4d19efcac82445da75b00000000;
          res = res0 + product
      in [res0, product, res]
           @ fixedExpUnsafe_terms_values x p fixedExp_coefficients (xi, res)
           @ [snd (fold (fixedExpUnsafe_term x p) fixedExp_coefficients (xi, res))
                div 0xde1bc4d19efcac82445da75b00000000])"

section \<open>Properties\<close>

declare range3.simps [simp del]
declare fixedLog2_while.simps [simp del]

subsection \<open>Integer division and bit facts\<close>

lemma int_le_div: "0 < b \<Longrightarrow> a * b \<le> n \<Longrightarrow> a \<le> n div (b::int)"
  using zdiv_mono1 [of "a * b" n b] by simp

lemma int_div_mult_le: "0 < b \<Longrightarrow> n div b * b \<le> (n::int)"
  using div_mult_mod_eq [of n b] pos_mod_sign [of b n] by linarith

lemma int_div_less:
  assumes "0 < b" "n < a * b"
  shows "n div b < (a::int)"
proof (rule ccontr)
  assume "\<not> n div b < a"
  then have "a * b \<le> n div b * b"
    using assms(1) by (simp add: mult_right_mono)
  with int_div_mult_le [OF assms(1), of n] assms(2) show False
    by linarith
qed

lemma or_exp_dvd:
  fixes t :: int
  assumes "2 ^ Suc j dvd t"
  shows "t OR 2 ^ j = t + 2 ^ j"
proof -
  from assms obtain m where t: "t = push_bit (Suc j) m"
    by (auto simp: push_bit_eq_mult dvd_def mult.commute)
  have "t AND 2 ^ j = 0"
    unfolding t by (rule bit_eqI) (auto simp: bit_simps bit_0)
  then show ?thesis
    by (simp add: disjunctive_add_eq_or)
qed

lemma range3_0_32:
  "range3 0 32 2 = [0, 2, 4, 6, 8, 10, 12, 14, 16, 18, 20, 22, 24, 26, 28, 30]"
  by (simp add: range3.simps)

lemma range3_empty: "stop \<le> start \<Longrightarrow> range3 start stop step = []"
  by (simp add: range3.simps)

subsection \<open>safeMul\<close>

text \<open>
  Claim C3. For all integers \<open>x\<close> and \<open>y\<close>, \<open>safeMul x y\<close> fails with OverflowError
  exactly when the product \<open>x * y\<close> is at least \<open>2 ^ 256\<close>, and returns the exact
  product otherwise.
\<close>

theorem safeMul_overflow_iff:
  "(safeMul x y = Inl OverflowError \<longleftrightarrow> 2 ^ 256 \<le> x * y)
   \<and> (x * y < 2 ^ 256 \<longrightarrow> safeMul x y = Inr (x * y))"
  by (simp add: safeMul_def push_bit_eq_mult)

theorem safeMul_overflow_iff_witness:
  "safeMul (2 ^ 128) (2 ^ 128) = Inl OverflowError
   \<and> (2 ^ 128 - 1) * 2 ^ 128 < (2 ^ 256 :: int)
   \<and> safeMul (2 ^ 128 - 1) (2 ^ 128) = Inr ((2 ^ 128 - 1) * 2 ^ 128)"
  using safeMul_overflow_iff [of "2 ^ 128" "2 ^ 128"]
    safeMul_overflow_iff [of "2 ^ 128 - 1" "2 ^ 128"]
  by simp

subsection \<open>ln\<close>

text \<open>
  Claim C7. For every numerator, denominator and precision, \<open>ln\<close> fails with
  DomainError whenever the denominator is greater than the numerator, or the numerator
  is 0, or the denominator is 0.
\<close>

theorem ln_fixed_domain_error:
  "numerator < denominator \<or> numerator = 0 \<or> denominator = 0 \<Longrightarrow>
   ln_fixed numerator denominator precision = Inl DomainError"
  by (auto simp: ln_fixed_def)

theorem ln_fixed_domain_error_witness:
  "ln_fixed 3 5 32 = Inl DomainError \<and> ln_fixed 0 0 32 = Inl DomainError
   \<and> ln_fixed 7 0 (-1) = Inl DomainError"
  using ln_fixed_domain_error [of 3 5 32] ln_fixed_domain_error [of 0 0 32]
    ln_fixed_domain_error [of 7 0 "-1"]
  by simp

subsection \<open>fixedExp at precision 32\<close>

text \<open>
  Claim C2. \<open>fixedExp x 32\<close> fails with OverflowError for every \<open>x\<close> greater than
  \<open>MAX_FIXED_EXP_32 = 0x386bfdba29\<close>, and at \<open>x = MAX_FIXED_EXP_32\<close> it returns a
  value.
\<close>

theorem fixedExp_32_bound:
  "MAX_FIXED_EXP_32 = 0x386bfdba29
   \<and> (MAX_FIXED_EXP_32 < x \<longrightarrow> fixedExp x 32 = Inl OverflowError)
   \<and> fixedExp MAX_FIXED_EXP_32 32 = Inr 7115225350470959793658382097557"
proof (intro conjI impI)
  show "MAX_FIXED_EXP_32 = 0x386bfdba29"
    by (simp add: MAX_FIXED_EXP_32_def)
  show "fixedExp x 32 = Inl OverflowError" if "MAX_FIXED_EXP_32 < x"
    using that by (simp add: fixedExp_def range3_empty)
  show "fixedExp MAX_FIXED_EXP_32 32 = Inr 7115225350470959793658382097557"
    by (simp add: fixedExp_def range3_empty fixedExpUnsafe_def MAX_FIXED_EXP_32_def
        fixedExp_coefficients_def drop_bit_eq_div push_bit_eq_mult)
qed

theorem fixedExp_32_bound_witness:
  "MAX_FIXED_EXP_32 < 0x386bfdba2a \<and> fixedExp 0x386bfdba2a 32 = Inl OverflowError"
  using fixedExp_32_bound [of "0x386bfdba2a"]
  by simp

subsection \<open>floorLog2\<close>

lemma floorLog2_shifts_rev: "floorLog2_shifts = rev (map (\<lambda>i. 2 ^ i) [0..<8])"
  by (simp add: floorLog2_shifts_def upt_rec)

text \<open>
  The probing loop on the shifts \<open>2 ^ (j - 1), \<dots>, 2, 1\<close> adds the position \<open>k\<close> of the
  leading bit of \<open>n\<close> to an accumulator whose low \<open>j\<close> bits are clear.
\<close>

lemma floorLog2_fold:
  "2 ^ k \<le> n \<Longrightarrow> n < 2 ^ Suc k \<Longrightarrow> k < 2 ^ j \<Longrightarrow> 2 ^ j dvd t \<Longrightarrow>
   snd (fold floorLog2_step (rev (map (\<lambda>i. 2 ^ i) [0..<j])) (n, t)) = t + int k"
proof (induction j arbitrary: n k t)
  case 0
  then show ?case by simp
next
  case (Suc j)
  show ?case
  proof (cases "k < 2 ^ j")
    case True
    have "(2::int) ^ Suc k \<le> 2 ^ (2 ^ j)"
      using True by (intro power_increasing) auto
    with Suc.prems have "\<not> n \<ge> 2 ^ (2 ^ j)"
      by linarith
    moreover have "2 ^ j dvd t"
      using Suc.prems(4) by (metis dvd_mult_right power_Suc2 mult.commute)
    ultimately show ?thesis
      using Suc.IH [OF Suc.prems(1) Suc.prems(2) True]
      by (simp add: ONE_def push_bit_eq_mult)
  next
    case False
    define k' where "k' = k - 2 ^ j"
    have k: "k = k' + 2 ^ j" and k': "k' < 2 ^ j"
      using False Suc.prems(3) by (auto simp: k'_def)
    have le: "(2::int) ^ (2 ^ j) \<le> n"
    proof -
      have "(2::int) ^ (2 ^ j) \<le> 2 ^ k"
        using False by (intro power_increasing) auto
      with Suc.prems(1) show ?thesis by linarith
    qed
    have lo: "2 ^ k' \<le> n div 2 ^ (2 ^ j)"
      using Suc.prems(1) by (intro int_le_div) (simp_all add: k power_add)
    have hi: "n div 2 ^ (2 ^ j) < 2 ^ Suc k'"
      using Suc.prems(2) by (intro int_div_less) (simp_all add: k power_add)
    have t: "t OR 2 ^ j = t + 2 ^ j"
      using Suc.prems(4) by (rule or_exp_dvd)
    have "2 ^ j dvd t + 2 ^ j"
      using Suc.prems(4) by (metis dvd_add dvd_refl dvd_mult_right power_Suc2 mult.commute)
    from Suc.IH [OF lo hi k' this] le show ?thesis
      by (simp add: ONE_def push_bit_eq_mult drop_bit_eq_div t k)
  qed
qed

lemma floorLog2_eq:
  assumes "2 ^ k \<le> n" "n < 2 ^ Suc k" "k < 256"
  shows "floorLog2 n = int k"
  using floorLog2_fold [OF assms(1,2), of 8 0] assms(3)
  by (simp add: floorLog2_def floorLog2_shifts_rev)

text \<open>
  Claim C8, as the code has it. For every \<open>k\<close> in \<open>[0, 255]\<close>, \<open>floorLog2 (2 ^ k) = k\<close>;
  and for every \<open>k\<close> with \<open>1 \<le> k < 255\<close>, \<open>floorLog2 (2 ^ k + 1) = k\<close>. The second
  part excludes \<open>k = 0\<close>, where \<open>2 ^ 0 + 1 = 2\<close> and the binary logarithm is 1.
\<close>

theorem floorLog2_pow2:
  "(k \<le> 255 \<longrightarrow> floorLog2 (2 ^ k) = int k)
   \<and> (1 \<le> k \<and> k < 255 \<longrightarrow> floorLog2 (2 ^ k + 1) = int k)"
proof (intro conjI impI)
  assume "k \<le> 255"
  then show "floorLog2 (2 ^ k) = int k"
    by (intro floorLog2_eq) simp_all
next
  assume k: "1 \<le> k \<and> k < 255"
  then have "(1::int) < 2 ^ k"
    by (simp add: one_less_power)
  with k show "floorLog2 (2 ^ k + 1) = int k"
    by (intro floorLog2_eq) simp_all
qed

theorem floorLog2_pow2_witness:
  "(3::nat) \<le> 255 \<and> floorLog2 (2 ^ 3) = 3 \<and> 1 \<le> (3::nat) \<and> (3::nat) < 255
   \<and> floorLog2 (2 ^ 3 + 1) = 3"
  using floorLog2_pow2 [of 3]
  by simp

text \<open>
  Claim C8 as stated fails at \<open>k = 0\<close>: \<open>floorLog2 (2 ^ 0 + 1)\<close> is 1, not 0.
\<close>

theorem floorLog2_pow2_succ_counterexample:
  "floorLog2 (2 ^ 0 + 1) = 1 \<and> floorLog2 (2 ^ 0 + 1) \<noteq> int 0"
  by (simp add: floorLog2_def floorLog2_shifts_def upt_rec ONE_def)

subsection \<open>power at base 1\<close>

lemma fixedLog2_while_stop: "x < push_bit p TWO \<Longrightarrow> fixedLog2_while p x hi = (x, hi)"
  by (simp add: fixedLog2_while.simps)

lemma fixedLog2_step_one: "fixedLog2_step p i (2 ^ p, hi) = (2 ^ p, hi)"
  by (simp add: ONE_def TWO_def push_bit_eq_mult Let_def)

lemma fixedLog2_fold_one: "fold (fixedLog2_step p) is (2 ^ p, hi) = (2 ^ p, hi)"
  by (induction "is") (simp_all add: fixedLog2_step_one del: fixedLog2_step.simps)

lemma fixedLog2_one: "0 \<le> precision \<Longrightarrow> fixedLog2 (2 ^ nat precision) precision = Inr 0"
  by (simp add: fixedLog2_def Let_def fixedLog2_while_stop fixedLog2_fold_one ONE_def TWO_def
      push_bit_eq_mult)

lemma fixedLoge_one: "0 \<le> precision \<Longrightarrow> fixedLoge (2 ^ nat precision) precision = Inr 0"
  by (simp add: fixedLoge_def fixedLog2_one ONE_def push_bit_eq_mult)

lemma ln_fixed_one:
  assumes "0 \<le> precision" "precision \<le> 255"
  shows "ln_fixed 1 1 precision = Inr 0"
proof -
  have "(1::int) < 2 ^ nat (256 - precision)"
    using assms by (intro one_less_power) auto
  then show ?thesis
    using assms by (simp add: ln_fixed_def Let_def ONE_def push_bit_eq_mult fixedLoge_one)
qed

lemma maxExp_fold_nonneg:
  "0 \<le> m \<Longrightarrow>
   0 \<le> fold (\<lambda>p maxExp. drop_bit (64 - 2) (maxExp * 0xeb5ec5975959c565)) ps (m::int)"
  by (induction ps arbitrary: m) (simp_all add: drop_bit_eq_div pos_imp_zdiv_nonneg_iff)

lemma fixedExpUnsafe_fold_zero: "fold (fixedExpUnsafe_term 0 p) cs (0, res) = (0, res)"
  by (induction cs) simp_all

lemma fixedExpUnsafe_zero:
  "0 \<le> precision \<Longrightarrow> fixedExpUnsafe 0 precision = Inr (2 ^ nat precision)"
  by (simp add: fixedExpUnsafe_def Let_def fixedExpUnsafe_fold_zero push_bit_eq_mult)

lemma fixedExp_zero: "0 \<le> precision \<Longrightarrow> fixedExp 0 precision = Inr (2 ^ nat precision)"
  using maxExp_fold_nonneg [of MAX_FIXED_EXP_32 "range3 32 precision 2"]
  by (simp add: fixedExp_def Let_def fixedExpUnsafe_zero MAX_FIXED_EXP_32_def)

text \<open>
  Claim C1. For every \<open>expN \<ge> 0\<close>, every \<open>expD \<ge> 1\<close> and every precision in
  \<open>[0, 62]\<close>, \<open>power 1 1 expN expD precision\<close> returns exactly \<open>1 << precision\<close>; in
  particular \<open>power 1 1 1 1 32 = 0x100000000\<close>.
\<close>

theorem power_base_one:
  "(0 \<le> expN \<and> 1 \<le> expD \<and> 0 \<le> precision \<and> precision \<le> 62 \<longrightarrow>
      power 1 1 expN expD precision = Inr (push_bit (nat precision) 1))
   \<and> power 1 1 1 1 32 = Inr 0x100000000"
proof -
  have general: "power 1 1 n d p = Inr (push_bit (nat p) 1)"
    if "0 \<le> n" "1 \<le> d" "0 \<le> p" "p \<le> 62" for n d p
    using that
    by (simp add: power_def ln_fixed_one safeMul_def fixedExp_zero push_bit_eq_mult)
  have "power 1 1 1 1 32 = Inr 0x100000000"
    using general [of 1 1 32] by (simp add: push_bit_eq_mult)
  with general [of expN expD precision] show ?thesis
    by blast
qed

theorem power_base_one_witness:
  "(0::int) \<le> 3 \<and> (1::int) \<le> 2 \<and> (0::int) \<le> 40 \<and> (40::int) \<le> 62
   \<and> power 1 1 3 2 40 = Inr (push_bit 40 1)"
  using power_base_one [of 3 2 40]
  by simp

subsection \<open>calculateBestPrecision\<close>

lemma calculateBestPrecision_loop_Some:
  "calculateBestPrecision_loop maxExp maxVal expD ps = Some p \<Longrightarrow> p \<in> set ps"
  by (induction ps arbitrary: maxExp) (auto split: if_splits)

lemma lnUpperBound32_returns:
  "baseD < baseN \<Longrightarrow> baseD \<noteq> 0 \<Longrightarrow> \<exists>v. lnUpperBound32 baseN baseD = Inr v"
  by (simp add: lnUpperBound32_def Let_def)

text \<open>
  Claim C4, as the code has it. For every input with \<open>baseD \<ge> 1\<close>, \<open>baseN > baseD\<close>,
  \<open>expN \<ge> 0\<close> and \<open>expD \<ge> 1\<close>, \<open>calculateBestPrecision\<close> returns one of the even
  numbers \<open>32, 34, \<dots>, 62\<close>.
\<close>

theorem calculateBestPrecision_range:
  assumes "baseD < baseN" "1 \<le> baseD" "0 \<le> expN" "1 \<le> expD"
  shows "\<exists>p \<in> {32, 34, 36, 38, 40, 42, 44, 46, 48, 50, 52, 54, 56, 58, 60, 62}.
           calculateBestPrecision baseN baseD expN expD = Inr p"
proof -
  from assms obtain v where v: "lnUpperBound32 baseN baseD = Inr v"
    using lnUpperBound32_returns [of baseD baseN] by auto
  show ?thesis
  proof (cases "calculateBestPrecision_loop MAX_FIXED_EXP_32 (v * expN) expD (range3 0 32 2)")
    case None
    with v assms show ?thesis
      by (simp add: calculateBestPrecision_def)
  next
    case (Some p)
    then have "p \<in> set (range3 0 32 2)"
      by (rule calculateBestPrecision_loop_Some)
    then have "p \<in> {0, 2, 4, 6, 8, 10, 12, 14, 16, 18, 20, 22, 24, 26, 28, 30}"
      by (simp add: range3_0_32)
    with v assms Some show ?thesis
      by (auto simp: calculateBestPrecision_def)
  qed
qed

theorem calculateBestPrecision_range_witness:
  "(1::int) < 4 \<and> (1::int) \<le> 1 \<and> (0::int) \<le> 1 \<and> (1::int) \<le> 2
   \<and> (\<exists>p \<in> {32, 34, 36, 38, 40, 42, 44, 46, 48, 50, 52, 54, 56, 58, 60, 62}.
           calculateBestPrecision 4 1 1 2 = Inr p)"
  using calculateBestPrecision_range [of 1 4 1 2]
  by simp

text \<open>
  Claim C4 as stated fails at \<open>baseD = 0\<close>: with \<open>baseN = 1 > baseD\<close>, \<open>expN = 0\<close> and
  \<open>expD = 1\<close> none of the three brackets of \<open>lnUpperBound32\<close> applies and the division
  \<open>(baseN - 1) / baseD\<close> raises ZeroDivisionError, so no precision is returned.
\<close>

theorem calculateBestPrecision_zero_baseD_counterexample:
  "(0::int) < 1 \<and> (0::int) \<le> 0 \<and> (1::int) \<le> 1
   \<and> calculateBestPrecision 1 0 0 1 = Inl ZeroDivisionError"
  by (simp add: calculateBestPrecision_def lnUpperBound32_def)

subsection \<open>The assertions below ln\<close>

text \<open>
  Claim C10. For unsigned operands and a precision for which both shifts of \<open>ln\<close> are
  defined (\<open>0 \<le> precision \<le> 256\<close>): whenever \<open>ln\<close> passes its own validation
  (\<open>denominator \<le> numerator\<close>, both operands nonzero, both below
  \<open>2 ^ (256 - precision)\<close>), the value \<open>x = (numerator << precision) / denominator\<close>
  that it passes to \<open>fixedLoge\<close> is at least \<open>2 ^ precision\<close>, so neither the assertion
  of \<open>fixedLoge\<close> nor that of \<open>fixedLog2\<close> fires and \<open>ln\<close> returns a value.
\<close>

theorem ln_fixed_reaches_fixedLoge:
  assumes "0 \<le> numerator" "0 \<le> denominator" "0 \<le> precision" "precision \<le> 256"
    and "denominator \<le> numerator" "denominator \<noteq> 0 \<and> numerator \<noteq> 0"
    and "numerator < push_bit (nat (256 - precision)) ONE"
    and "denominator < push_bit (nat (256 - precision)) ONE"
  shows "push_bit (nat precision) ONE \<le> push_bit (nat precision) numerator div denominator
    \<and> ln_fixed numerator denominator precision
        = fixedLoge (push_bit (nat precision) numerator div denominator) precision
    \<and> fixedLoge (push_bit (nat precision) numerator div denominator) precision
        \<noteq> Inl DomainError
    \<and> fixedLog2 (push_bit (nat precision) numerator div denominator) precision
        \<noteq> Inl DomainError
    \<and> (\<exists>v. ln_fixed numerator denominator precision = Inr v)"
proof -
  let ?x = "push_bit (nat precision) numerator div denominator"
  have pos: "0 < denominator"
    using assms by simp
  have "2 ^ nat precision * denominator \<le> push_bit (nat precision) numerator"
    using assms(5) by (simp add: push_bit_eq_mult mult.commute mult_left_mono)
  with pos have x: "2 ^ nat precision \<le> ?x"
    by (rule int_le_div)
  then have l2: "\<exists>h. fixedLog2 ?x precision = Inr h"
    using assms(3) by (simp add: fixedLog2_def Let_def ONE_def push_bit_eq_mult)
  then have le: "\<exists>v. fixedLoge ?x precision = Inr v"
    using assms(3) x by (auto simp: fixedLoge_def ONE_def push_bit_eq_mult)
  have eq: "ln_fixed numerator denominator precision = fixedLoge ?x precision"
    using assms by (simp add: ln_fixed_def Let_def)
  from x l2 le eq show ?thesis
    by (auto simp: ONE_def push_bit_eq_mult)
qed

theorem ln_fixed_reaches_fixedLoge_witness:
  "((0::int) \<le> 4 \<and> (0::int) \<le> 1 \<and> (0::int) \<le> 32 \<and> (32::int) \<le> 256 \<and> (1::int) \<le> 4
    \<and> (4::int) < push_bit (nat (256 - 32)) ONE \<and> (1::int) < push_bit (nat (256 - 32)) ONE)
   \<and> (push_bit (nat 32) ONE \<le> push_bit (nat 32) 4 div 1
      \<and> ln_fixed 4 1 32 = fixedLoge (push_bit (nat 32) 4 div 1) 32
      \<and> fixedLoge (push_bit (nat 32) 4 div 1) 32 \<noteq> Inl DomainError
      \<and> fixedLog2 (push_bit (nat 32) 4 div 1) 32 \<noteq> Inl DomainError
      \<and> (\<exists>v. ln_fixed 4 1 32 = Inr v))"
proof -
  have hyps: "(0::int) \<le> 4 \<and> (0::int) \<le> 1 \<and> (0::int) \<le> 32 \<and> (32::int) \<le> 256 \<and> (1::int) \<le> 4
    \<and> (4::int) < push_bit (nat (256 - 32)) ONE \<and> (1::int) < push_bit (nat (256 - 32)) ONE"
    by (simp add: ONE_def push_bit_eq_mult)
  have "push_bit (nat 32) ONE \<le> push_bit (nat 32) 4 div 1
      \<and> ln_fixed 4 1 32 = fixedLoge (push_bit (nat 32) 4 div 1) 32
      \<and> fixedLoge (push_bit (nat 32) 4 div 1) 32 \<noteq> Inl DomainError
      \<and> fixedLog2 (push_bit (nat 32) 4 div 1) 32 \<noteq> Inl DomainError
      \<and> (\<exists>v. ln_fixed 4 1 32 = Inr v)"
    by (rule ln_fixed_reaches_fixedLoge) (simp_all add: ONE_def push_bit_eq_mult)
  with hyps show ?thesis
    by (rule conjI)
qed

subsection \<open>fixedExpUnsafe at precision 32\<close>

declare fixedExpUnsafe_term.simps [simp del]
declare fixedExpUnsafe_term_values.simps [simp del]

text \<open>
  For unsigned inputs every value that \<open>fixedExpUnsafe\<close> computes is non-negative and
  grows with \<open>_x\<close>, so the values at the largest valid input bound those at every
  smaller one.
\<close>

lemma fixedExpUnsafe_last:
  "0 \<le> precision \<Longrightarrow>
   fixedExpUnsafe x precision = Inr (last (fixedExpUnsafe_values x (nat precision)))"
  by (simp add: fixedExpUnsafe_def fixedExpUnsafe_values_def Let_def)

lemma values_at_max: "list_all fits_uint256 (fixedExpUnsafe_values 242329958953 32)"
  by code_simp

lemma values_after_max: "list_ex (\<lambda>v. \<not> fits_uint256 v) (fixedExpUnsafe_values 242329958954 32)"
  by code_simp


lemma fixedExp_coefficients_nonneg: "\<forall>c \<in> set fixedExp_coefficients. 0 \<le> c"
  by (simp add: fixedExp_coefficients_def)

lemma fixedExpUnsafe_term_mono:
  assumes "0 \<le> x" "x \<le> y" "0 \<le> xi" "xi \<le> yi" "0 \<le> res" "res \<le> res'" "0 \<le> c"
  shows "0 \<le> fst (fixedExpUnsafe_term x p c (xi, res))"
    and "fst (fixedExpUnsafe_term x p c (xi, res)) \<le> fst (fixedExpUnsafe_term y p c (yi, res'))"
    and "0 \<le> snd (fixedExpUnsafe_term x p c (xi, res))"
    and "snd (fixedExpUnsafe_term x p c (xi, res)) \<le> snd (fixedExpUnsafe_term y p c (yi, res'))"
    and "list_all2 (\<lambda>a b. 0 \<le> a \<and> a \<le> b)
           (fixedExpUnsafe_term_values x p c (xi, res))
           (fixedExpUnsafe_term_values y p c (yi, res'))"
proof -
  have p0: "0 \<le> xi * x"
    using assms by (intro mult_nonneg_nonneg)
  have p1: "xi * x \<le> yi * y"
    using assms by (intro mult_mono) simp_all
  have d0: "0 \<le> xi * x div 2 ^ p"
    using p0 by (simp add: pos_imp_zdiv_nonneg_iff)
  have d1: "xi * x div 2 ^ p \<le> yi * y div 2 ^ p"
    using p1 by (intro zdiv_mono1) simp_all
  have m0: "0 \<le> xi * x div 2 ^ p * c"
    using d0 assms(7) by (intro mult_nonneg_nonneg)
  have m1: "xi * x div 2 ^ p * c \<le> yi * y div 2 ^ p * c"
    using d1 assms(7) by (intro mult_right_mono)
  from p0 p1 d0 d1 m0 m1 assms(5,6)
  show "0 \<le> fst (fixedExpUnsafe_term x p c (xi, res))"
    and "fst (fixedExpUnsafe_term x p c (xi, res)) \<le> fst (fixedExpUnsafe_term y p c (yi, res'))"
    and "0 \<le> snd (fixedExpUnsafe_term x p c (xi, res))"
    and "snd (fixedExpUnsafe_term x p c (xi, res)) \<le> snd (fixedExpUnsafe_term y p c (yi, res'))"
    and "list_all2 (\<lambda>a b. 0 \<le> a \<and> a \<le> b)
           (fixedExpUnsafe_term_values x p c (xi, res))
           (fixedExpUnsafe_term_values y p c (yi, res'))"
    by (simp_all add: fixedExpUnsafe_term.simps fixedExpUnsafe_term_values.simps Let_def
        drop_bit_eq_div)
qed

lemma fixedExpUnsafe_terms_mono:
  assumes "0 \<le> x" "x \<le> y" "\<forall>c \<in> set cs. 0 \<le> c"
    and "0 \<le> fst s" "fst s \<le> fst t" "0 \<le> snd s" "snd s \<le> snd t"
  shows "list_all2 (\<lambda>a b. 0 \<le> a \<and> a \<le> b)
           (fixedExpUnsafe_terms_values x p cs s) (fixedExpUnsafe_terms_values y p cs t)
    \<and> 0 \<le> snd (fold (fixedExpUnsafe_term x p) cs s)
    \<and> snd (fold (fixedExpUnsafe_term x p) cs s) \<le> snd (fold (fixedExpUnsafe_term y p) cs t)"
  using assms(3-)
proof (induction cs arbitrary: s t)
  case Nil
  then show ?case by simp
next
  case (Cons c cs)
  obtain xi res where s: "s = (xi, res)"
    by (cases s)
  obtain yi res' where t: "t = (yi, res')"
    by (cases t)
  from Cons.prems have c: "0 \<le> c" and cs: "\<forall>c \<in> set cs. 0 \<le> c"
    and st: "0 \<le> xi" "xi \<le> yi" "0 \<le> res" "res \<le> res'"
    by (simp_all add: s t)
  note m = fixedExpUnsafe_term_mono [OF assms(1,2) st c, of p]
  from Cons.IH [OF cs m(1-4)] m(5) show ?case
    by (simp add: s t list_all2_appendI)
qed

lemma fixedExpUnsafe_values_mono:
  assumes "0 \<le> x" "x \<le> y"
  shows "list_all2 (\<lambda>a b. 0 \<le> a \<and> a \<le> b)
           (fixedExpUnsafe_values x p) (fixedExpUnsafe_values y p)"
proof -
  define C :: int where "C = 0xde1bc4d19efcac82445da75b00000000"
  have C: "0 < C"
    by (simp add: C_def)
  have r0: "0 \<le> push_bit p C"
    using C by (simp add: push_bit_eq_mult)
  have p0: "0 \<le> x * C" and p1: "x * C \<le> y * C"
    using assms C by (simp_all add: mult_right_mono)
  note t = fixedExpUnsafe_terms_mono [OF assms fixedExp_coefficients_nonneg,
      of "(x, push_bit p C + x * C)" "(y, push_bit p C + y * C)" p]
  from assms r0 p0 p1 have t': "list_all2 (\<lambda>a b. 0 \<le> a \<and> a \<le> b)
      (fixedExpUnsafe_terms_values x p fixedExp_coefficients (x, push_bit p C + x * C))
      (fixedExpUnsafe_terms_values y p fixedExp_coefficients (y, push_bit p C + y * C))"
    and f0: "0 \<le> snd (fold (fixedExpUnsafe_term x p) fixedExp_coefficients
                         (x, push_bit p C + x * C))"
    and f1: "snd (fold (fixedExpUnsafe_term x p) fixedExp_coefficients (x, push_bit p C + x * C))
         \<le> snd (fold (fixedExpUnsafe_term y p) fixedExp_coefficients (y, push_bit p C + y * C))"
    using t by simp_all
  have q0: "0 \<le> snd (fold (fixedExpUnsafe_term x p) fixedExp_coefficients
                         (x, push_bit p C + x * C)) div C"
    using f0 C by (simp add: pos_imp_zdiv_nonneg_iff)
  have q1: "snd (fold (fixedExpUnsafe_term x p) fixedExp_coefficients (x, push_bit p C + x * C)) div C
         \<le> snd (fold (fixedExpUnsafe_term y p) fixedExp_coefficients (y, push_bit p C + y * C)) div C"
    using f1 C by (rule zdiv_mono1)
  from r0 p0 p1 t' q0 q1 show ?thesis
    unfolding fixedExpUnsafe_values_def Let_def C_def
    by (intro list_all2_appendI) simp_all
qed

lemma fits_uint256_below:
  "list_all2 (\<lambda>a b. 0 \<le> a \<and> a \<le> b) xs ys \<Longrightarrow> list_all fits_uint256 ys \<Longrightarrow>
   list_all fits_uint256 xs"
  by (induction rule: list_all2_induct) (auto simp: fits_uint256_def)

text \<open>
  Claim C9. \<open>fixedExpUnsafe\<close> at precision 32 succeeds for every input
  \<open>x \<le> 242329958953\<close> (an unsigned integer): it returns, and every value it computes
  fits 256 bits. It fails at \<open>x = 242329958954\<close>, the first invalid input: there one of
  the values it computes (the product \<open>xi * _x\<close> of the last term) no longer fits
  256 bits.
\<close>

theorem fixedExpUnsafe_32_valid_range:
  "(0 \<le> x \<and> x \<le> 242329958953 \<longrightarrow>
      fixedExpUnsafe x 32 = Inr (last (fixedExpUnsafe_values x 32))
      \<and> list_all fits_uint256 (fixedExpUnsafe_values x 32))
   \<and> fixedExpUnsafe 242329958954 32 = Inr (last (fixedExpUnsafe_values 242329958954 32))
   \<and> list_ex (\<lambda>v. \<not> fits_uint256 v) (fixedExpUnsafe_values 242329958954 32)"
proof (intro conjI impI)
  show "fixedExpUnsafe 242329958954 32 = Inr (last (fixedExpUnsafe_values 242329958954 32))"
    using fixedExpUnsafe_last [of 32 242329958954] by simp
  show "list_ex (\<lambda>v. \<not> fits_uint256 v) (fixedExpUnsafe_values 242329958954 32)"
    by (rule values_after_max)
next
  assume x: "0 \<le> x \<and> x \<le> 242329958953"
  show "fixedExpUnsafe x 32 = Inr (last (fixedExpUnsafe_values x 32))"
    using fixedExpUnsafe_last [of 32 x] by simp
  from x have "list_all2 (\<lambda>a b. 0 \<le> a \<and> a \<le> b)
      (fixedExpUnsafe_values x 32) (fixedExpUnsafe_values 242329958953 32)"
    by (intro fixedExpUnsafe_values_mono) simp_all
  then show "list_all fits_uint256 (fixedExpUnsafe_values x 32)"
    using values_at_max by (rule fits_uint256_below)
qed

theorem fixedExpUnsafe_32_valid_range_witness:
  "((0::int) \<le> 4294967296 \<and> (4294967296::int) \<le> 242329958953)
   \<and> (fixedExpUnsafe 4294967296 32 = Inr (last (fixedExpUnsafe_values 4294967296 32))
      \<and> list_all fits_uint256 (fixedExpUnsafe_values 4294967296 32))"
proof -
  have hyps: "(0::int) \<le> 4294967296 \<and> (4294967296::int) \<le> 242329958953"
    by simp
  with fixedExpUnsafe_32_valid_range [of 4294967296]
  have "fixedExpUnsafe 4294967296 32 = Inr (last (fixedExpUnsafe_values 4294967296 32))
      \<and> list_all fits_uint256 (fixedExpUnsafe_values 4294967296 32)"
    by blast
  with hyps show ?thesis
    by (rule conjI)
qed

subsection \<open>fixedLog2 against the real logarithm\<close>

text \<open>
  Both loops of \<open>fixedLog2\<close> keep \<open>_x\<close> at or above \<open>2 ^ precision\<close> and never
  increase the quantity \<open>hi + w * log2 (_x / 2 ^ precision)\<close>, where the weight \<open>w\<close> is
  \<open>2 ^ precision\<close> in the \<open>while\<close> loop and halves with every round of the \<open>for\<close>
  loop: every division and shift only rounds down.
\<close>

lemma log2_half: "0 < u \<Longrightarrow> log 2 (u / 2) = log 2 u - 1"
  by (simp add: log_divide_pos)

lemma log2_nonneg: "1 \<le> u \<Longrightarrow> 0 \<le> log 2 u"
  by simp

lemma log2_square: "0 < u \<Longrightarrow> log 2 (u * u) = 2 * log 2 u"
  by (simp add: log_mult_pos)

lemma real_pow2_le: "(2::int) ^ p \<le> x \<Longrightarrow> 1 \<le> real_of_int x / 2 ^ p"
proof -
  assume "(2::int) ^ p \<le> x"
  then have "real_of_int (2 ^ p) \<le> real_of_int x"
    by (simp only: of_int_le_iff)
  then show ?thesis
    by simp
qed

lemma fixedLog2_while_inv:
  assumes "2 ^ p \<le> x"
  shows "2 ^ p \<le> fst (fixedLog2_while p x hi)
    \<and> real_of_int (snd (fixedLog2_while p x hi))
        + 2 ^ p * log 2 (real_of_int (fst (fixedLog2_while p x hi)) / 2 ^ p)
      \<le> real_of_int hi + 2 ^ p * log 2 (real_of_int x / 2 ^ p)"
  using assms
proof (induction p x hi rule: fixedLog2_while.induct)
  case (1 p x hi)
  show ?case
  proof (cases "push_bit p TWO \<le> x")
    case False
    with "1.prems" show ?thesis
      by (simp add: fixedLog2_while.simps)
  next
    case True
    then have two: "2 ^ p * 2 \<le> x"
      by (simp add: push_bit_eq_mult TWO_def mult.commute)
    then have lo: "2 ^ p \<le> x div 2"
      by (intro int_le_div) simp_all
    define u where "u = real_of_int x / 2 ^ p"
    define w where "w = real_of_int (x div 2) / 2 ^ p"
    have u: "1 \<le> u"
      unfolding u_def using "1.prems" by (rule real_pow2_le)
    have w: "1 \<le> w"
      unfolding w_def using lo by (rule real_pow2_le)
    have "real_of_int (x div 2) \<le> real_of_int x / 2"
      using real_of_int_div4 [of x 2] by simp
    then have "w \<le> u / 2"
      by (simp add: u_def w_def field_simps)
    then have "log 2 w \<le> log 2 (u / 2)"
      using w by (intro log_mono) simp_all
    then have "log 2 w \<le> log 2 u - 1"
      using u by (simp add: log2_half)
    then have "2 ^ p * log 2 w \<le> 2 ^ p * (log 2 u - 1)"
      by (intro mult_left_mono) simp_all
    then have step: "real_of_int (hi + 2 ^ p) + 2 ^ p * log 2 (real_of_int (x div 2) / 2 ^ p)
        \<le> real_of_int hi + 2 ^ p * log 2 (real_of_int x / 2 ^ p)"
      by (simp add: algebra_simps u_def w_def)
    from "1.IH" [OF True] lo step show ?thesis
      using True
      by (subst (1 2 3) fixedLog2_while.simps)
        (simp add: drop_bit_eq_div push_bit_eq_mult ONE_def)
  qed
qed

lemma fixedLog2_step_inv:
  fixes x hi :: int
  assumes x: "2 ^ p \<le> x" and i: "i < p"
  shows "2 ^ p \<le> fst (fixedLog2_step p i (x, hi))
    \<and> real_of_int (snd (fixedLog2_step p i (x, hi)))
        + 2 ^ (p - 1 - i) * log 2 (real_of_int (fst (fixedLog2_step p i (x, hi))) / 2 ^ p)
      \<le> real_of_int hi + 2 ^ (p - i) * log 2 (real_of_int x / 2 ^ p)"
proof -
  define y where "y = x * x div 2 ^ p"
  define u where "u = real_of_int x / 2 ^ p"
  define v where "v = real_of_int y / 2 ^ p"
  define c :: real where "c = 2 ^ (p - 1 - i)"
  have step: "fixedLog2_step p i (x, hi)
      = (if 2 * 2 ^ p \<le> y then (y div 2, hi + 2 ^ (p - 1 - i)) else (y, hi))"
    by (simp add: Let_def ONE_def TWO_def push_bit_eq_mult drop_bit_eq_div y_def)
  have u: "1 \<le> u"
    unfolding u_def using x by (rule real_pow2_le)
  have "(0::int) \<le> 2 ^ p"
    by simp
  with x have "0 \<le> x"
    by linarith
  with x have "(2::int) ^ p * 2 ^ p \<le> x * x"
    by (intro mult_mono) simp_all
  then have y_lo: "2 ^ p \<le> y"
    unfolding y_def by (intro int_le_div) simp_all
  then have v: "1 \<le> v"
    unfolding v_def by (rule real_pow2_le)
  have "real_of_int y \<le> real_of_int (x * x) / real_of_int (2 ^ p)"
    unfolding y_def by (rule real_of_int_div4)
  then have "v \<le> u * u"
    by (simp add: u_def v_def field_simps)
  then have "log 2 v \<le> log 2 (u * u)"
    using v by (intro log_mono) simp_all
  then have lv: "log 2 v \<le> 2 * log 2 u"
    using u by (simp add: log2_square)
  have c: "0 \<le> c"
    by (simp add: c_def)
  have "p - i = Suc (p - 1 - i)"
    using i by simp
  then have pw: "(2::real) ^ (p - i) = 2 * c"
    by (simp only: c_def power_Suc)
  show ?thesis
  proof (cases "2 * 2 ^ p \<le> y")
    case False
    have "c * log 2 v \<le> c * (2 * log 2 u)"
      using lv c by (rule mult_left_mono)
    then have "real_of_int hi + c * log 2 v \<le> real_of_int hi + 2 * c * log 2 u"
      by (simp add: algebra_simps)
    with False y_lo show ?thesis
      unfolding step pw by (simp only: if_False fst_conv snd_conv u_def v_def c_def)
  next
    case True
    define w where "w = real_of_int (y div 2) / 2 ^ p"
    have lo: "2 ^ p \<le> y div 2"
      using True by (intro int_le_div) (simp_all add: mult.commute)
    then have w: "1 \<le> w"
      unfolding w_def by (rule real_pow2_le)
    have "real_of_int (y div 2) \<le> real_of_int y / 2"
      using real_of_int_div4 [of y 2] by simp
    then have "w \<le> v / 2"
      by (simp add: w_def v_def field_simps)
    then have "log 2 w \<le> log 2 (v / 2)"
      using w by (intro log_mono) simp_all
    then have "log 2 w \<le> 2 * log 2 u - 1"
      using v lv by (simp add: log2_half)
    then have "c * log 2 w \<le> c * (2 * log 2 u - 1)"
      using c by (intro mult_left_mono)
    then have "real_of_int (hi + 2 ^ (p - 1 - i)) + c * log 2 w
        \<le> real_of_int hi + 2 * c * log 2 u"
      by (simp add: algebra_simps c_def)
    with True lo show ?thesis
      unfolding step pw by (simp only: if_True fst_conv snd_conv u_def w_def c_def)
  qed
qed

lemma fixedLog2_fold_inv:
  fixes x hi :: int
  assumes "2 ^ p \<le> x" "n \<le> p"
  shows "2 ^ p \<le> fst (fold (fixedLog2_step p) [0..<n] (x, hi))
    \<and> real_of_int (snd (fold (fixedLog2_step p) [0..<n] (x, hi)))
        + 2 ^ (p - n) * log 2 (real_of_int (fst (fold (fixedLog2_step p) [0..<n] (x, hi))) / 2 ^ p)
      \<le> real_of_int hi + 2 ^ p * log 2 (real_of_int x / 2 ^ p)"
  using assms(2)
proof (induction n)
  case 0
  with assms(1) show ?case by simp
next
  case (Suc n)
  obtain x' hi' where s: "fold (fixedLog2_step p) [0..<n] (x, hi) = (x', hi')"
    by (cases "fold (fixedLog2_step p) [0..<n] (x, hi)")
  from Suc have n: "n < p" and IH: "2 ^ p \<le> x'"
    "real_of_int hi' + 2 ^ (p - n) * log 2 (real_of_int x' / 2 ^ p)
       \<le> real_of_int hi + 2 ^ p * log 2 (real_of_int x / 2 ^ p)"
    by (simp_all add: s)
  have eq: "fold (fixedLog2_step p) [0..<Suc n] (x, hi) = fixedLog2_step p n (x', hi')"
    by (simp add: s del: fixedLog2_step.simps)
  have "p - Suc n = p - 1 - n"
    by simp
  note inv = fixedLog2_step_inv [OF IH(1) n, of hi']
  show ?case
    unfolding eq \<open>p - Suc n = p - 1 - n\<close>
    by (rule conjI [OF conjunct1 [OF inv] order_trans [OF conjunct2 [OF inv] IH(2)]])
qed

text \<open>
  Claim C5. For every \<open>x \<ge> 2 ^ precision\<close> (at a precision \<open>\<ge> 0\<close>, as the shifts of
  the function need), \<open>fixedLog2 x precision\<close> returns a value, and the value never
  overestimates the logarithm: it is at most \<open>log2 (x / 2 ^ precision) * 2 ^ precision\<close>,
  where \<open>log2\<close> is the real binary logarithm.
\<close>

theorem fixedLog2_underestimate:
  assumes "0 \<le> precision" "2 ^ nat precision \<le> x"
  shows "\<exists>h. fixedLog2 x precision = Inr h
    \<and> real_of_int h \<le> log 2 (real_of_int x / 2 ^ nat precision) * 2 ^ nat precision"
proof -
  define p where "p = nat precision"
  define s where "s = fixedLog2_while p x 0"
  define r where "r = fold (fixedLog2_step p) [0..<p] s"
  have x: "2 ^ p \<le> x"
    using assms(2) by (simp add: p_def)
  have res: "fixedLog2 x precision = Inr (snd r)"
    using assms x by (simp add: fixedLog2_def Let_def ONE_def push_bit_eq_mult r_def s_def p_def)
  have w: "2 ^ p \<le> fst s"
    "real_of_int (snd s) + 2 ^ p * log 2 (real_of_int (fst s) / 2 ^ p)
       \<le> real_of_int 0 + 2 ^ p * log 2 (real_of_int x / 2 ^ p)"
    using fixedLog2_while_inv [OF x, of 0] by (simp_all add: s_def)
  have f: "2 ^ p \<le> fst r"
    "real_of_int (snd r) + 2 ^ (p - p) * log 2 (real_of_int (fst r) / 2 ^ p)
       \<le> real_of_int (snd s) + 2 ^ p * log 2 (real_of_int (fst s) / 2 ^ p)"
    using fixedLog2_fold_inv [OF w(1) order_refl, of "snd s"] by (simp_all add: r_def)
  have "0 \<le> log 2 (real_of_int (fst r) / 2 ^ p)"
    by (rule log2_nonneg [OF real_pow2_le [OF f(1)]])
  with f(2) w(2) have "real_of_int (snd r) \<le> log 2 (real_of_int x / 2 ^ p) * 2 ^ p"
    by (simp add: mult.commute)
  with res show ?thesis
    by (simp add: p_def)
qed


theorem fixedLog2_underestimate_witness:
  "(0::int) \<le> 32 \<and> (2::int) ^ nat 32 \<le> 3 * 2 ^ 32
   \<and> (\<exists>h. fixedLog2 (3 * 2 ^ 32) 32 = Inr h
      \<and> real_of_int h \<le> log 2 (real_of_int (3 * 2 ^ 32) / 2 ^ nat 32) * 2 ^ nat 32)"
proof -
  have hyps: "(0::int) \<le> 32" "(2::int) ^ nat 32 \<le> 3 * 2 ^ 32"
    by simp_all
  from hyps fixedLog2_underestimate [OF hyps] show ?thesis
    by (intro conjI)
qed

subsection \<open>lnUpperBound32 against the real logarithm\<close>

text \<open>
  The constants of \<open>lnUpperBound32\<close> are compared with \<open>e\<close>, \<open>e\<^sup>2\<close>, \<open>e\<^sup>3\<close> and
  \<open>ln 2\<close> through partial sums of the exponential series, which lie below \<open>exp x\<close> for
  \<open>x \<ge> 0\<close>.
\<close>

lemma exp_ge_partial_sum:
  fixes x :: real
  assumes "0 \<le> x"
  shows "(\<Sum>k<n. inverse (fact k) * x ^ k) \<le> exp x"
proof -
  have "(\<Sum>k<n. inverse (fact k) * x ^ k) \<le> (\<Sum>k. inverse (fact k) * x ^ k)"
    using assms by (intro sum_le_suminf summable_exp) simp_all
  then show ?thesis
    by (simp add: exp_def)
qed

lemma exp_1_lower: "27182818 / 10000000 \<le> exp (1::real)"
proof -
  have "(27182818 / 10000000 :: real) \<le> (\<Sum>k<12. inverse (fact k) * 1 ^ k)"
    by (simp add: lessThan_nat_numeral lessThan_Suc fact_numeral)
  also have "\<dots> \<le> exp 1"
    by (rule exp_ge_partial_sum) simp
  finally show ?thesis .
qed

lemma ln_2_upper: "ln (2::real) * 2 ^ 32 \<le> 0xb17217f8"
proof -
  define c :: real where "c = 0xb17217f8 / 2 ^ 32"
  have "(2::real) \<le> (\<Sum>k<13. inverse (fact k) * c ^ k)"
    by (simp add: lessThan_nat_numeral lessThan_Suc fact_numeral c_def power_divide)
  also have "\<dots> \<le> exp c"
    by (rule exp_ge_partial_sum) (simp add: c_def)
  finally have "ln 2 \<le> ln (exp c)"
    by (intro ln_mono) simp_all
  then show ?thesis
    by (simp add: c_def field_simps)
qed


lemma exp_2_lower: "738905 / 100000 \<le> exp (2::real)"
proof -
  have "(738905 / 100000 :: real) \<le> (27182818 / 10000000) ^ 2"
    by (simp add: power_divide)
  also have "\<dots> \<le> exp 1 ^ 2"
    using exp_1_lower by (intro power_mono) simp_all
  also have "\<dots> = exp 2"
    using exp_of_nat_mult [of 2 "1::real"] by simp
  finally show ?thesis .
qed

lemma exp_3_lower: "2008553 / 100000 \<le> exp (3::real)"
proof -
  have "(2008553 / 100000 :: real) \<le> (27182818 / 10000000) ^ 3"
    by (simp add: power_divide)
  also have "\<dots> \<le> exp 1 ^ 3"
    using exp_1_lower by (intro power_mono) simp_all
  also have "\<dots> = exp 3"
    using exp_of_nat_mult [of 3 "1::real"] by simp
  finally show ?thesis .
qed

lemma ln_2_lower: "1 / 2 \<le> ln (2::real)"
proof -
  have "ln (1 / 2 :: real) \<le> 1 / 2 - 1"
    by (rule ln_le_minus_one) simp
  then show ?thesis
    by (simp add: ln_div)
qed


lemma ratio_le:
  fixes n d a b :: int
  assumes "0 < d" "0 < a" "n * a \<le> d * b"
  shows "real_of_int n / real_of_int d \<le> real_of_int b / real_of_int a"
proof -
  have "real_of_int (n * a) \<le> real_of_int (d * b)"
    using assms(3) by (simp only: of_int_le_iff)
  with assms(1,2) show ?thesis
    by (simp add: field_simps)
qed

lemma ln_le_of_le_exp:
  fixes r :: real
  assumes "0 < r" "r \<le> b" "b \<le> exp m"
  shows "ln r \<le> m"
proof -
  have "ln r \<le> ln (exp m)"
    using assms by (intro ln_mono) simp_all
  then show ?thesis
    by simp
qed

lemma int_less_div_succ_mult:
  fixes n d :: int
  assumes "0 < d"
  shows "n < (n div d + 1) * d"
proof -
  have "n = n div d * d + n mod d"
    by simp
  moreover have "n mod d < d"
    using assms by (rule pos_mod_bound)
  moreover have "(n div d + 1) * d = n div d * d + d"
    by (simp add: algebra_simps)
  ultimately show ?thesis
    by linarith
qed

lemma floorLog2_bounds:
  assumes "1 \<le> q" "q < 2 ^ 256"
  shows "0 \<le> floorLog2 q \<and> q < 2 ^ nat (floorLog2 q + 1)"
proof -
  from assms(1) have "1 \<le> nat q"
    by simp
  with ex_power_ivl1 [of 2 "nat q"] obtain k where k: "2 ^ k \<le> nat q" "nat q < 2 ^ (k + 1)"
    by auto
  from k(1) assms(1) have lo: "2 ^ k \<le> q"
    by (simp add: le_nat_iff)
  from k(2) assms(1) have hi: "q < 2 ^ Suc k"
    by (simp add: nat_less_iff)
  have "k < 256"
  proof (rule ccontr)
    assume "\<not> k < 256"
    then have "(2::int) ^ 256 \<le> 2 ^ k"
      by (intro power_increasing) simp_all
    with lo assms(2) show False
      by linarith
  qed
  with lo hi have "floorLog2 q = int k"
    by (rule floorLog2_eq)
  with hi show ?thesis
    by (simp add: nat_add_distrib)
qed

text \<open>
  Claim C6, as the code has it. For every \<open>baseN\<close>, \<open>baseD\<close> with
  \<open>1 \<le> baseD < baseN < 2 ^ 256\<close>, \<open>lnUpperBound32 baseN baseD\<close> returns a value that
  is at least \<open>ln (baseN / baseD) * 2 ^ 32\<close>, where \<open>ln\<close> is the real natural
  logarithm.
\<close>

theorem lnUpperBound32_upper_bound:
  assumes "1 \<le> baseD" "baseD < baseN" "baseN < 2 ^ 256"
  shows "\<exists>v. lnUpperBound32 baseN baseD = Inr v
    \<and> ln (real_of_int baseN / real_of_int baseD) * 2 ^ 32 \<le> real_of_int v"
proof -
  define r where "r = real_of_int baseN / real_of_int baseD"
  have d: "0 < baseD" and r: "0 < r"
    using assms by (simp_all add: r_def)
  consider (e1) "baseN * 100000 \<le> baseD * 271828"
    | (e2) "\<not> baseN * 100000 \<le> baseD * 271828" "baseN * 100000 \<le> baseD * 738905"
    | (e3) "\<not> baseN * 100000 \<le> baseD * 271828" "\<not> baseN * 100000 \<le> baseD * 738905"
        "baseN * 100000 \<le> baseD * 2008553"
    | (log) "\<not> baseN * 100000 \<le> baseD * 271828" "\<not> baseN * 100000 \<le> baseD * 738905"
        "\<not> baseN * 100000 \<le> baseD * 2008553"
    by blast
  then show ?thesis
  proof cases
    case e1
    have "r \<le> 271828 / 100000"
      unfolding r_def using ratio_le [OF d _ e1] by simp
    then have "r \<le> 27182818 / 10000000"
      by simp
    then have "ln r \<le> 1"
      using exp_1_lower by (rule ln_le_of_le_exp [OF r])
    with e1 assms show ?thesis
      by (simp add: lnUpperBound32_def Let_def push_bit_eq_mult flip: r_def)
  next
    case e2
    have "r \<le> 738905 / 100000"
      unfolding r_def using ratio_le [OF d _ e2(2)] by simp
    then have "ln r \<le> 2"
      using exp_2_lower by (rule ln_le_of_le_exp [OF r])
    with e2 assms show ?thesis
      by (simp add: lnUpperBound32_def Let_def push_bit_eq_mult flip: r_def)
  next
    case e3
    have "r \<le> 2008553 / 100000"
      unfolding r_def using ratio_le [OF d _ e3(3)] by simp
    then have "ln r \<le> 3"
      using exp_3_lower by (rule ln_le_of_le_exp [OF r])
    with e3 assms show ?thesis
      by (simp add: lnUpperBound32_def Let_def push_bit_eq_mult flip: r_def)
  next
    case log
    define q where "q = (baseN - 1) div baseD"
    define k where "k = nat (floorLog2 q + 1)"
    have "1 * baseD \<le> baseN - 1"
      using assms by simp
    with d have q1: "1 \<le> q"
      unfolding q_def by (rule int_le_div)
    have "q * baseD \<le> baseN - 1"
      unfolding q_def using d by (rule int_div_mult_le)
    moreover have "q * 1 \<le> q * baseD"
      using q1 assms(1) by (intro mult_left_mono) simp_all
    ultimately have "q < 2 ^ 256"
      using assms(3) by simp
    with q1 have fl: "0 \<le> floorLog2 q" "q < 2 ^ k"
      using floorLog2_bounds [of q] by (simp_all add: k_def)
    have "baseN - 1 < (q + 1) * baseD"
      unfolding q_def using d by (rule int_less_div_succ_mult)
    moreover have "(q + 1) * baseD \<le> 2 ^ k * baseD"
      using fl(2) d by (intro mult_right_mono) simp_all
    ultimately have "baseN * 1 \<le> baseD * 2 ^ k"
      by (simp add: mult.commute)
    then have "r \<le> real_of_int (2 ^ k) / real_of_int 1"
      unfolding r_def using d by (intro ratio_le) simp_all
    then have "ln r \<le> ln (2 ^ k)"
      using r by (intro ln_mono) simp_all
    then have "ln r \<le> real k * ln 2"
      by (simp add: ln_realpow)
    then have "ln r * 2 ^ 32 \<le> real k * (ln 2 * 2 ^ 32)"
      by simp
    also have "\<dots> \<le> real k * 0xb17217f8"
      using ln_2_upper by (intro mult_left_mono) simp_all
    also have "\<dots> = real_of_int ((floorLog2 q + 1) * 0xb17217f8)"
      using fl(1) by (simp add: k_def)
    finally show ?thesis
      using log assms by (simp add: lnUpperBound32_def Let_def flip: r_def q_def)
  qed
qed

theorem lnUpperBound32_upper_bound_witness:
  "((1::int) \<le> 1 \<and> (1::int) < 3 \<and> (3::int) < 2 ^ 256)
   \<and> (\<exists>v. lnUpperBound32 3 1 = Inr v \<and> ln (real_of_int 3 / real_of_int 1) * 2 ^ 32 \<le> real_of_int v)"
proof -
  have hyps: "(1::int) \<le> 1" "(1::int) < 3" "(3::int) < 2 ^ 256"
    by simp_all
  from hyps lnUpperBound32_upper_bound [OF hyps] show ?thesis
    by (intro conjI)
qed

text \<open>
  Claim C6 as stated fails outside that range. At \<open>baseD = 0\<close> (with \<open>baseN = 1\<close>) no
  bracket applies and the division \<open>(baseN - 1) / baseD\<close> raises ZeroDivisionError, so
  nothing is returned. At \<open>baseN = 2 ^ 600\<close>, \<open>baseD = 1\<close> the eight probes of
  \<open>floorLog2\<close> stop at 255 and the result \<open>256 * 0xb17217f8\<close> is below
  \<open>ln (2 ^ 600) * 2 ^ 32\<close>.
\<close>

theorem lnUpperBound32_upper_bound_counterexample:
  "lnUpperBound32 1 0 = Inl ZeroDivisionError
   \<and> lnUpperBound32 (2 ^ 600) 1 = Inr (256 * 0xb17217f8)
   \<and> real_of_int (256 * 0xb17217f8) < ln (real_of_int (2 ^ 600) / real_of_int 1) * 2 ^ 32"
proof (intro conjI)
  show "lnUpperBound32 1 0 = Inl ZeroDivisionError"
    by (simp add: lnUpperBound32_def)
  have "floorLog2 (2 ^ 600 - 1) = 255"
    by (simp add: floorLog2_def floorLog2_shifts_def upt_rec ONE_def push_bit_eq_mult drop_bit_eq_div)
  then show "lnUpperBound32 (2 ^ 600) 1 = Inr (256 * 0xb17217f8)"
    by (simp add: lnUpperBound32_def)
  have "real_of_int (256 * 0xb17217f8) < 600 * (1 / 2) * 2 ^ 32"
    by simp
  also have "\<dots> \<le> 600 * ln 2 * 2 ^ 32"
    using ln_2_lower by (intro mult_right_mono mult_left_mono) simp_all
  also have "\<dots> = ln (real_of_int (2 ^ 600) / real_of_int 1) * 2 ^ 32"
  proof -
    have "real_of_int (2 ^ 600) / real_of_int 1 = 2 ^ 600"
      by (simp only: of_int_power of_int_numeral of_int_1 div_by_1)
    moreover have "ln ((2::real) ^ 600) = 600 * ln 2"
      using ln_realpow [of "2::real" 600] by (simp only: of_nat_numeral)
    ultimately show ?thesis
      by (simp only:)
  qed
  finally show "real_of_int (256 * 0xb17217f8) < ln (real_of_int (2 ^ 600) / real_of_int 1) * 2 ^ 32" .
qed

end
